theory Spec2Isabelle
  imports Main "HOL-Library.Word" "HOL-Library.Multiset"
begin

section \<open>Data model\<close>

text \<open>
  The server relays a \<open>Message\<close> to every websocket listener held in the hub's
  \<open>clients\<close> map and stores it in the table \<open>tts_messages\<close>.

  A \<open>*websocket.Conn\<close> is identified by a number. A \<open>float32\<close> is carried as its
  32-bit pattern: the code never computes with the amount, it only passes it on.
  A \<open>time.Time\<close> is an integer count of clock units; the code only compares times.
\<close>

type_synonym conn = nat
type_synonym float32 = "32 word"
type_synonym time = int

text \<open>\<open>type Message struct\<close> of \<open>main.go\<close>.\<close>

record Message =
  SessionID :: string
  Name :: string
  Amount :: float32
  Message :: string
  Description :: string

text \<open>
  One row of \<open>tts_messages\<close>, with the columns named by the two SQL statements of
  \<open>db.go\<close>; \<open>created_at\<close> is filled in by the database.
\<close>

record row =
  session_id :: string
  name :: string
  amount :: float32
  message :: string
  description :: string
  created_at :: time

text \<open>
  What the outside world answers to a call: a websocket write (the deadline set just
  before it has run out, the write failed otherwise, or it went through), and the
  \<open>Exec\<close> of the insert statement (the row is stored with the creation time the
  database chose, or the call fails).
\<close>

datatype write_result = WriteOk | WriteError | DeadlineExceeded

datatype exec_result = ExecOk time | ExecError

datatype logline =
    ClientConnected nat
  | ClientDisconnected nat
  | ErrorMarshaling
  | ErrorWriting conn

datatype event =
    SetWriteDeadline conn nat
  | WriteMessage conn string write_result
  | AddMessage string string float32 string string
  | Log logline

text \<open>
  The state the hub goroutine works on: the \<open>clients\<close> map of the \<open>Hub\<close> struct,
  the connections on which \<open>Close()\<close> has been called, the table behind \<open>dbPool\<close>,
  and the calls made so far, in order. The hub's mutex is locked and unlocked by the hub
  goroutine alone, around each case, so it orders nothing and is left out; the three
  channels are the requests that \<open>run\<close> receives.
\<close>

record world =
  clients :: "conn \<rightharpoonup> bool"
  closed :: "conn set"
  tts_messages :: "row list"
  trace :: "event list"

definition says :: "event list \<Rightarrow> world \<Rightarrow> world" where
  "says evs w = w\<lparr>trace := trace w @ evs\<rparr>"

definition len_clients :: "world \<Rightarrow> nat" where
  "len_clients w = card (dom (clients w))"

section \<open>Persistence: \<open>db.go\<close>\<close>

text \<open>
  \<open>addMessage\<close> executes \<open>insertMessageQuery\<close> with its five arguments and returns
  the wrapped error of \<open>Exec\<close>, or nil.
\<close>

definition addMessage ::
  "exec_result \<Rightarrow> string \<Rightarrow> string \<Rightarrow> float32 \<Rightarrow> string \<Rightarrow> string \<Rightarrow> row list
    \<Rightarrow> string option \<times> row list" where
  "addMessage ex sessionID nm amt msg descr tbl =
     (case ex of
        ExecError \<Rightarrow> (Some ''failed to insert message'', tbl)
      | ExecOk t \<Rightarrow>
          (None, tbl @ [\<lparr>session_id = sessionID, name = nm, amount = amt, message = msg,
                          description = descr, created_at = t\<rparr>]))"

section \<open>The hub: \<open>Hub.run\<close>\<close>

text \<open>
  \<open>case client := <-hub.register\<close>: the connection is stored under its key and the
  new size of the map is logged.
\<close>

definition register :: "conn \<Rightarrow> world \<Rightarrow> world" where
  "register client w =
     (let w1 = w\<lparr>clients := (clients w)(client \<mapsto> True)\<rparr>
      in says [Log (ClientConnected (len_clients w1))] w1)"

text \<open>
  \<open>case client := <-hub.unregister\<close>: only a connection that is a key of the map is
  deleted and closed.
\<close>

definition unregister :: "conn \<Rightarrow> world \<Rightarrow> world" where
  "unregister client w =
     (if client \<in> dom (clients w) then
        (let w1 = w\<lparr>clients := (clients w)(client := None)\<rparr>;
             w2 = w1\<lparr>closed := insert client (closed w1)\<rparr>
         in says [Log (ClientDisconnected (len_clients w2))] w2)
      else w)"

text \<open>
  The environment of one broadcast. Go ranges over a map in an order of its choosing:
  \<open>order\<close> is that order. \<open>write_res c\<close> is what \<open>WriteMessage\<close> on \<open>c\<close> returns,
  \<open>exec_res c\<close> what the insert made in the iteration of \<open>c\<close> returns.
\<close>

record fanout =
  order :: "conn list"
  write_res :: "conn \<Rightarrow> write_result"
  exec_res :: "conn \<Rightarrow> exec_result"

text \<open>
  \<open>deliver\<close> is the body of \<open>for client := range hub.clients\<close> and \<open>fan_out\<close>
  the loop, over the connections in the order of the range. A key deleted before the
  loop reaches it is not produced by \<open>range\<close>. In the body the write
  deadline of 10 seconds is set, the text message is written; when the write returns an
  error the connection is closed and deleted. Then \<open>addMessage\<close> is called, inside the
  loop and after the \<open>if\<close>, and its result is dropped.

  The hub of the snapshot passes the name, the amount and the text to \<open>addMessage\<close>;
  \<open>addMessage\<close> of \<open>db.go\<close> takes the session and the description as well, and the
  model passes the message's own.
\<close>

definition deliver :: "fanout \<Rightarrow> string \<Rightarrow> Message \<Rightarrow> conn \<Rightarrow> world \<Rightarrow> world" where
  "deliver e messageJSON m client w =
     (let w1 = says [SetWriteDeadline client 10,
                     WriteMessage client messageJSON (write_res e client)] w;
          w2 = (if write_res e client \<noteq> WriteOk then
                  (let w' = says [Log (ErrorWriting client)] w1;
                       w'' = w'\<lparr>closed := insert client (closed w')\<rparr>
                   in w''\<lparr>clients := (clients w'')(client := None)\<rparr>)
                else w1);
          w3 = says [AddMessage (SessionID m) (Name m) (Amount m) (Message m)
                       (Description m)] w2
      in w3\<lparr>tts_messages :=
               snd (addMessage (exec_res e client) (SessionID m) (Name m) (Amount m)
                      (Message m) (Description m) (tts_messages w3))\<rparr>)"

fun fan_out :: "fanout \<Rightarrow> string \<Rightarrow> Message \<Rightarrow> conn list \<Rightarrow> world \<Rightarrow> world" where
  "fan_out e messageJSON m [] w = w"
| "fan_out e messageJSON m (client # rest) w =
     (if client \<notin> dom (clients w) then fan_out e messageJSON m rest w
      else fan_out e messageJSON m rest (deliver e messageJSON m client w))"

text \<open>
  \<open>case message := <-hub.broadcast\<close>. \<open>marshal\<close> is \<open>json.Marshal\<close>: when it
  returns an error the case logs it and ends.
\<close>

definition broadcast ::
  "(Message \<Rightarrow> string option) \<Rightarrow> fanout \<Rightarrow> Message \<Rightarrow> world \<Rightarrow> world" where
  "broadcast marshal e m w =
     (case marshal m of
        None \<Rightarrow> says [Log ErrorMarshaling] w
      | Some messageJSON \<Rightarrow> fan_out e messageJSON m (order e) w)"

text \<open>
  The endless \<open>for { select { ... } }\<close>: the hub takes one request at a time, in the
  order in which the channels deliver them. \<open>run\<close> is the state after a finite prefix.
\<close>

datatype request = Register conn | Unregister conn | Broadcast Message fanout

fun hub_case :: "(Message \<Rightarrow> string option) \<Rightarrow> request \<Rightarrow> world \<Rightarrow> world" where
  "hub_case marshal (Register client) w = register client w"
| "hub_case marshal (Unregister client) w = unregister client w"
| "hub_case marshal (Broadcast m e) w = broadcast marshal e m w"

fun run :: "(Message \<Rightarrow> string option) \<Rightarrow> request list \<Rightarrow> world \<Rightarrow> world" where
  "run marshal [] w = w"
| "run marshal (r # rs) w = run marshal rs (hub_case marshal r w)"

text \<open>The hub at start: \<open>var hub = Hub{clients: make(map[*websocket.Conn]bool), ...}\<close>.\<close>

definition hub0 :: world where
  "hub0 = \<lparr>clients = Map.empty, closed = {}, tts_messages = [], trace = []\<rparr>"

text \<open>
  The order handed to a broadcast lists every key of the map once.
\<close>

definition ranges_over :: "fanout \<Rightarrow> world \<Rightarrow> bool" where
  "ranges_over e w \<longleftrightarrow> distinct (order e) \<and> set (order e) = dom (clients w)"

section \<open>The send endpoint: \<open>sendHandler\<close>\<close>

datatype body = ErrorBody string | StatusBody string | MessagesBody "Message list"

datatype response = JSON nat body

text \<open>
  \<open>bound\<close> is what \<open>c.ShouldBindJSON(&req)\<close> gives: an error, or the bound request.
  The handler answers, and hands at most one message to the channel \<open>hub.broadcast\<close>
  (the second component).
\<close>

definition sendHandler :: "string + Message \<Rightarrow> response \<times> Message option" where
  "sendHandler bound =
     (case bound of
        Inl err \<Rightarrow> (JSON 400 (ErrorBody ''Invalid request format''), None)
      | Inr req \<Rightarrow>
          if Message req = '''' then (JSON 400 (ErrorBody ''Message cannot be empty''), None)
          else (JSON 200 (StatusBody ''Message successfully sent''), Some req))"

text \<open>
  A request to the send endpoint against the running hub: what the handler put on the
  channel, the hub takes as its next broadcast.
\<close>

definition send_request ::
  "(Message \<Rightarrow> string option) \<Rightarrow> string + Message \<Rightarrow> fanout \<Rightarrow> world \<Rightarrow> response \<times> world" where
  "send_request marshal bound e w =
     (case sendHandler bound of
        (resp, None) \<Rightarrow> (resp, w)
      | (resp, Some m) \<Rightarrow> (resp, hub_case marshal (Broadcast m e) w))"

section \<open>The range query: \<open>getMessages\<close> and the messages endpoint\<close>

text \<open>
  \<open>selectMessagesQuery\<close>, as the database evaluates it on the table: the rows with
  \<open>created_at >= $1 AND created_at <= $2\<close>, \<open>ORDER BY created_at DESC\<close>. SQL leaves
  the order of rows of equal time open; the stable sort is one of the orders allowed.
\<close>

definition selectMessagesQuery :: "row list \<Rightarrow> time \<Rightarrow> time \<Rightarrow> row list" where
  "selectMessagesQuery tbl from to =
     sort_key (\<lambda>r. - created_at r)
       (filter (\<lambda>r. created_at r \<ge> from \<and> created_at r \<le> to) tbl)"

text \<open>
  What \<open>dbPool.Query\<close> returns: an error, or the rows the cursor yields, each of which
  \<open>rows.Scan\<close> reads or fails on, and whether the cursor ended on an error of its own
  (the connection lost while the rows are read).
\<close>

datatype fetched = Scans row | ScanFails row

datatype query_result = QueryError | QueryRows "fetched list" bool

text \<open>A database that answers the query without a fault.\<close>

definition healthy :: "row list \<Rightarrow> time \<Rightarrow> time \<Rightarrow> query_result" where
  "healthy tbl from to = QueryRows (map Scans (selectMessagesQuery tbl from to)) False"

text \<open>
  \<open>rows.Scan(&msg.Name, &msg.Amount, &msg.Message, &msg.Description, &createdAt)\<close>
  into \<open>var msg Message\<close>: the session of \<open>msg\<close> stays the empty string, and the
  creation time is read into a local that is dropped.
\<close>

definition scanned :: "row \<Rightarrow> Message" where
  "scanned r = \<lparr>SessionID = '''', Name = name r, Amount = amount r, Message = message r,
                 Description = description r\<rparr>"

text \<open>
  The loop \<open>for rows.Next()\<close>. A row that fails to scan is logged and the loop goes on
  with \<open>continue\<close>; the failed \<open>Scan\<close> has closed the rows, so the next
  \<open>rows.Next()\<close> is false, no later row is read, and \<open>rows.Err()\<close> is set. The third
  component says whether a scan failed.
\<close>

fun next_rows ::
  "fetched list \<Rightarrow> Message list \<times> string list \<Rightarrow> Message list \<times> string list \<times> bool" where
  "next_rows [] (messages, logs) = (messages, logs, False)"
| "next_rows (Scans r # rest) (messages, logs) = next_rows rest (messages @ [scanned r], logs)"
| "next_rows (ScanFails r # rest) (messages, logs) =
     (messages, logs @ [''Error scanning row''], True)"

text \<open>
  \<open>getMessages\<close> returns a slice and no error: a failed query is logged and answered
  with \<open>[]Message{}\<close>; an error met while the rows are read is logged after the loop
  and the messages appended so far are returned. The second component is what it logs.
  The nil slice that \<open>var messages []Message\<close> is when no row was appended and the
  empty slice are both the empty list.
\<close>

definition getMessages :: "query_result \<Rightarrow> Message list \<times> string list" where
  "getMessages q =
     (case q of
        QueryError \<Rightarrow> ([], [''Error querying database''])
      | QueryRows fs cursor_err \<Rightarrow>
          (case next_rows fs ([], []) of
             (messages, logs, scan_err) \<Rightarrow>
               (messages,
                if cursor_err \<or> scan_err then logs @ [''Error iterating rows''] else logs)))"

text \<open>
  The rows read before the first failed scan, whether a scan fails, and whether a query
  failed: at the call of \<open>Query\<close>, at a scan, or at the end of the cursor.
\<close>

fun rows_read :: "fetched list \<Rightarrow> row list" where
  "rows_read [] = []"
| "rows_read (Scans r # rest) = r # rows_read rest"
| "rows_read (ScanFails r # rest) = []"

fun scan_fails :: "fetched list \<Rightarrow> bool" where
  "scan_fails [] = False"
| "scan_fails (Scans r # rest) = scan_fails rest"
| "scan_fails (ScanFails r # rest) = True"

fun query_failed :: "query_result \<Rightarrow> bool" where
  "query_failed QueryError = True"
| "query_failed (QueryRows fs cursor_err) = (cursor_err \<or> scan_fails fs)"

definition quote :: "string \<Rightarrow> string" where
  "quote s = [CHR 0x27] @ s @ [CHR 0x27]"

text \<open>
  The handler of \<open>GET /messages\<close> in \<open>setupRouter\<close>. \<open>fromParsed\<close> and \<open>toParsed\<close>
  are the results of \<open>time.Parse(time.RFC3339, _)\<close> on the two query parameters
  (or on their defaults, the last hour), \<open>query\<close> is \<open>dbPool.Query\<close> with
  \<open>selectMessagesQuery\<close>. The second component is what \<open>getMessages\<close> logged.
\<close>

definition messagesHandler ::
  "string + time \<Rightarrow> string + time \<Rightarrow> (time \<Rightarrow> time \<Rightarrow> query_result) \<Rightarrow> response \<times> string list" where
  "messagesHandler fromParsed toParsed query =
     (case fromParsed of
        Inl err \<Rightarrow> (JSON 400 (ErrorBody (''Invalid '' @ quote ''from'' @ '' parameter'')), [])
      | Inr fromTime \<Rightarrow>
          (case toParsed of
             Inl err \<Rightarrow> (JSON 400 (ErrorBody (''Invalid '' @ quote ''to'' @ '' parameter'')), [])
           | Inr toTime \<Rightarrow>
               (let (messages, logs) = getMessages (query fromTime toTime)
                in (JSON 200 (MessagesBody messages), logs))))"

definition server_error :: "response \<Rightarrow> bool" where
  "server_error r = (case r of JSON code b \<Rightarrow> 500 \<le> code \<and> code < 600)"

definition in_range :: "time \<Rightarrow> time \<Rightarrow> row \<Rightarrow> bool" where
  "in_range from to r \<longleftrightarrow> from \<le> created_at r \<and> created_at r \<le> to"

section \<open>The listen endpoint: \<open>listenHandler\<close>\<close>

text \<open>
  Time in the handler is counted in seconds from the creation of the ticker.
  \<open>ReadMessage\<close> returns a message or an error; the error is logged when
  \<open>IsUnexpectedCloseError\<close> holds of it (the flag). What the handler does is a list of
  actions, each with the time at which it starts.
\<close>

datatype read_result = ReadOk | ReadError bool

datatype action =
    HubRegister conn
  | HubUnregister conn
  | Close conn
  | SetReadDeadline conn nat
  | SetPongHandler conn
  | TickerStop
  | WriteControl nat write_result
  | ReadMessage nat nat read_result
  | Logged string

datatype status = Running | Returned

text \<open>
  \<open>time.NewTicker(30 * time.Second)\<close>: the channel \<open>ticker.C\<close> holds at most one
  tick. A tick is waiting at \<open>now\<close> when a multiple of 30 lies after the time of the
  last receive and not after \<open>now\<close>.
\<close>

definition tick_pending :: "nat \<Rightarrow> nat \<Rightarrow> bool" where
  "tick_pending drained now \<longleftrightarrow> drained div 30 < now div 30"

text \<open>
  The loop \<open>for { select { case <-ticker.C: ... default: ... } }\<close>. \<open>select\<close> with
  a \<open>default\<close> does not wait: when a tick is in the channel the ping is written, and
  when none is, the handler calls \<open>ws.ReadMessage()\<close> and stays in that call until it
  returns. \<open>pings\<close> are the calls of \<open>WriteControl\<close> to come and \<open>reads\<close> the calls
  of \<open>ReadMessage\<close> to come, each with the seconds it takes and its result (a ping
  carries a deadline of 10 seconds). The loop of
  the source has no exit but the two \<open>return\<close>s; when the calls listed are used up the
  handler is still \<open>Running\<close>. The result also gives the time reached.
\<close>

fun keepalive ::
  "nat \<Rightarrow> nat \<Rightarrow> (nat \<times> write_result) list \<Rightarrow> (nat \<times> read_result) list
    \<Rightarrow> action list \<times> status \<times> nat" where
  "keepalive now drained pings reads =
     (if tick_pending drained now then
        (case pings of
           [] \<Rightarrow> ([], Running, now)
         | (d, r) # pings' \<Rightarrow>
             if r \<noteq> WriteOk then
               ([WriteControl now r, Logged ''Error sending ping''], Returned, now + d)
             else
               (case keepalive (now + d) now pings' reads of
                  (acts, fin) \<Rightarrow> (WriteControl now r # acts, fin)))
      else
        (case reads of
           [] \<Rightarrow> ([], Running, now)
         | (d, r) # reads' \<Rightarrow>
             (case r of
                ReadError unexpected \<Rightarrow>
                  (ReadMessage now (now + d) r
                     # (if unexpected then [Logged ''Error reading message''] else []),
                   Returned, now + d)
              | ReadOk \<Rightarrow>
                  (case keepalive (now + d) drained pings reads' of
                     (acts, fin) \<Rightarrow> (ReadMessage now (now + d) r # acts, fin)))))"

text \<open>
  \<open>listenHandler\<close>. When the upgrade fails, \<open>Upgrade\<close> has already written its
  own error reply; the handler logs, its \<open>c.JSON\<close> can no longer set the status, and
  the JSON body is appended to that reply (the first component). Otherwise the connection is sent to \<open>hub.register\<close>, the read deadline of
  24 hours and the pong handler are set and the loop runs; when the loop returns, the
  deferred calls run, last deferred first: \<open>ticker.Stop()\<close>, then
  \<open>hub.unregister <- ws\<close> and \<open>ws.Close()\<close>. The pong handler runs inside
  \<open>ReadMessage\<close> and only moves the read deadline.
\<close>

definition listenHandler ::
  "bool \<Rightarrow> conn \<Rightarrow> (nat \<times> write_result) list \<Rightarrow> (nat \<times> read_result) list
    \<Rightarrow> body option \<times> action list \<times> status" where
  "listenHandler upgraded ws pings reads =
     (if \<not> upgraded then
        (Some (ErrorBody ''Failed to upgrade connection''),
         [Logged ''Error upgrading connection''], Returned)
      else
        (case keepalive 0 0 pings reads of
           (acts, st, fin) \<Rightarrow>
             (None,
              [HubRegister ws, SetReadDeadline ws (24 * 3600), SetPongHandler ws] @ acts
                @ (if st = Returned then [TickerStop, HubUnregister ws, Close ws] else []),
              st)))"

text \<open>
  What an action of a handler does to the state of the hub: the two channel sends are
  taken by the hub as requests, \<open>Close\<close> closes the transport, the rest leaves the hub
  alone.
\<close>

fun perform :: "action \<Rightarrow> world \<Rightarrow> world" where
  "perform (HubRegister c) w = register c w"
| "perform (HubUnregister c) w = unregister c w"
| "perform (Close c) w = w\<lparr>closed := insert c (closed w)\<rparr>"
| "perform _ w = w"

fun performs :: "action list \<Rightarrow> world \<Rightarrow> world" where
  "performs [] w = w"
| "performs (a # acts) w = performs acts (perform a w)"

definition failed :: "action \<Rightarrow> bool" where
  "failed a =
     (case a of
        WriteControl t r \<Rightarrow> r \<noteq> WriteOk
      | ReadMessage t t' r \<Rightarrow> r \<noteq> ReadOk
      | _ \<Rightarrow> False)"

text \<open>The times at which the handler wrote a ping, or tried to.\<close>

fun ping_times :: "action list \<Rightarrow> nat list" where
  "ping_times [] = []"
| "ping_times (WriteControl t r # acts) = t # ping_times acts"
| "ping_times (a # acts) = ping_times acts"

text \<open>
  The heartbeat is on schedule up to \<open>horizon\<close> when every period \<open>[30 k, 30 (k + 1))\<close>
  with \<open>1 \<le> k\<close> that ends by the horizon has a ping written in it.
\<close>

definition on_schedule :: "action list \<Rightarrow> nat \<Rightarrow> bool" where
  "on_schedule acts horizon =
     list_all (\<lambda>k. list_ex (\<lambda>t. 30 * k \<le> t \<and> t < 30 * (k + 1)) (ping_times acts))
       [1 ..< horizon div 30]"

section \<open>Reading the trace\<close>

text \<open>
  The writes made to one connection, each with the text written and its result, and
  the number of calls of \<open>addMessage\<close>.
\<close>

fun attempts :: "conn \<Rightarrow> event list \<Rightarrow> (string \<times> write_result) list" where
  "attempts c [] = []"
| "attempts c (WriteMessage c' js r # evs) =
     (if c' = c then (js, r) # attempts c evs else attempts c evs)"
| "attempts c (ev # evs) = attempts c evs"

fun appends :: "event list \<Rightarrow> nat" where
  "appends [] = 0"
| "appends (AddMessage s n a t d # evs) = Suc (appends evs)"
| "appends (ev # evs) = appends evs"

text \<open>
  The membership the spec describes for a sequence of registrations and
  unregistrations: each registration adds its connection, each unregistration takes its
  connection away, in the order of arrival.
\<close>

fun registered_minus_unregistered :: "request list \<Rightarrow> conn set \<Rightarrow> conn set" where
  "registered_minus_unregistered [] members = members"
| "registered_minus_unregistered (Register c # rs) members =
     registered_minus_unregistered rs (insert c members)"
| "registered_minus_unregistered (Unregister c # rs) members =
     registered_minus_unregistered rs (members - {c})"
| "registered_minus_unregistered (Broadcast m e # rs) members =
     registered_minus_unregistered rs members"

text \<open>
  The connections registered and those unregistered by a sequence of requests; whether no
  connection is registered again once it has been unregistered (a handler registers a
  connection of its own once, and unregisters it when it returns); and whether a
  sequence holds registrations and unregistrations only.
\<close>

fun registered :: "request list \<Rightarrow> conn set" where
  "registered [] = {}"
| "registered (Register c # rs) = insert c (registered rs)"
| "registered (r # rs) = registered rs"

fun unregistered :: "request list \<Rightarrow> conn set" where
  "unregistered [] = {}"
| "unregistered (Unregister c # rs) = insert c (unregistered rs)"
| "unregistered (r # rs) = unregistered rs"

fun never_reused :: "request list \<Rightarrow> bool" where
  "never_reused [] = True"
| "never_reused (Unregister c # rs) = (c \<notin> registered rs \<and> never_reused rs)"
| "never_reused (r # rs) = never_reused rs"

fun membership_only :: "request list \<Rightarrow> bool" where
  "membership_only [] = True"
| "membership_only (Broadcast m e # rs) = False"
| "membership_only (r # rs) = membership_only rs"

section \<open>A scenario\<close>

text \<open>
  The message of the spec's scenario (the amount is 5.0), a stand-in for
  \<open>json.Marshal\<close> that never fails, a hub with three listeners, and a broadcast in
  which the write to listener 2 runs into its deadline.
\<close>

definition hi :: Message where
  "hi = \<lparr>SessionID = ''s1'', Name = ''x'', Amount = 0x40A00000, Message = ''hi'',
          Description = ''''\<rparr>"

definition text_of :: "Message \<Rightarrow> string option" where
  "text_of m = Some (Name m @ '': '' @ Message m)"

definition three_listeners :: world where
  "three_listeners = hub0\<lparr>clients := [1 \<mapsto> True, 2 \<mapsto> True, 3 \<mapsto> True]\<rparr>"

definition second_times_out :: fanout where
  "second_times_out =
     \<lparr>order = [3, 1, 2],
      write_res = (\<lambda>c. if c = 2 then DeadlineExceeded else WriteOk),
      exec_res = (\<lambda>c. ExecOk 100)\<rparr>"

text \<open>A broadcast over an empty registry.\<close>

definition nobody :: fanout where
  "nobody = \<lparr>order = [], write_res = (\<lambda>c. WriteOk), exec_res = (\<lambda>c. ExecOk 100)\<rparr>"

text \<open>
  A table of three messages (the amounts are 5.0, 1.0 and 2.0), a database that fails
  every query, and one that yields the newest row and then loses the connection.
\<close>

definition three_rows :: "row list" where
  "three_rows =
     [\<lparr>session_id = ''s1'', name = ''a'', amount = 0x40A00000, message = ''first'',
        description = ''from a'', created_at = 5\<rparr>,
      \<lparr>session_id = ''s1'', name = ''b'', amount = 0x3F800000, message = ''second'',
        description = ''from b'', created_at = 7\<rparr>,
      \<lparr>session_id = ''s2'', name = ''c'', amount = 0x40000000, message = ''third'',
        description = ''from c'', created_at = 12\<rparr>]"

definition down :: "time \<Rightarrow> time \<Rightarrow> query_result" where
  "down from to = QueryError"

definition cut_off :: "time \<Rightarrow> time \<Rightarrow> query_result" where
  "cut_off from to = QueryRows [Scans (three_rows ! 2)] True"

text \<open>
  A listener that sends nothing for 100 seconds and then drops the connection.
\<close>

definition silent_then_gone :: "(nat \<times> read_result) list" where
  "silent_then_gone = [(100, ReadError True)]"

text \<open>A listener that sends a message every 10 seconds.\<close>

definition chatty :: "(nat \<times> read_result) list" where
  "chatty = [(10, ReadOk), (10, ReadOk), (10, ReadOk), (10, ReadOk), (10, ReadOk), (10, ReadOk),
             (10, ReadOk), (10, ReadOk), (10, ReadOk)]"

section \<open>Facts about the state\<close>

lemma clients_says [simp]: "clients (says evs w) = clients w"
  and closed_says [simp]: "closed (says evs w) = closed w"
  and tts_messages_says [simp]: "tts_messages (says evs w) = tts_messages w"
  and trace_says [simp]: "trace (says evs w) = trace w @ evs"
  by (simp_all add: says_def)

lemma appends_append [simp]: "appends (xs @ ys) = appends xs + appends ys"
  by (induction xs rule: appends.induct) simp_all

lemma attempts_append [simp]: "attempts c (xs @ ys) = attempts c xs @ attempts c ys"
  by (induction c xs rule: attempts.induct) simp_all

lemma clients_deliver:
  "clients (deliver e js m c w) =
     (if write_res e c \<noteq> WriteOk then (clients w)(c := None) else clients w)"
  by (simp add: deliver_def Let_def)

lemma closed_deliver:
  "closed (deliver e js m c w) =
     (if write_res e c \<noteq> WriteOk then insert c (closed w) else closed w)"
  by (simp add: deliver_def Let_def)

lemma trace_deliver:
  "trace (deliver e js m c w) =
     trace w @ [SetWriteDeadline c 10, WriteMessage c js (write_res e c)]
       @ (if write_res e c \<noteq> WriteOk then [Log (ErrorWriting c)] else [])
       @ [AddMessage (SessionID m) (Name m) (Amount m) (Message m) (Description m)]"
  by (simp add: deliver_def Let_def)

lemma appends_deliver: "appends (trace (deliver e js m c w)) = Suc (appends (trace w))"
  by (simp add: deliver_def Let_def)

lemma attempts_deliver:
  "attempts x (trace (deliver e js m c w)) =
     attempts x (trace w) @ (if x = c then [(js, write_res e c)] else [])"
  by (simp add: deliver_def Let_def)

lemma fan_out_untouched:
  "set cs \<inter> dom (clients w) = {} \<Longrightarrow> fan_out e js m cs w = w"
  by (induction cs arbitrary: w) auto

lemma clients_fan_out:
  "clients (fan_out e js m cs w) c =
     (if c \<in> set cs \<and> write_res e c \<noteq> WriteOk then None else clients w c)"
  by (induction cs arbitrary: w) (auto simp: clients_deliver)

lemma closed_fan_out:
  "closed (fan_out e js m cs w) =
     closed w \<union> {c \<in> set cs. c \<in> dom (clients w) \<and> write_res e c \<noteq> WriteOk}"
  by (induction cs arbitrary: w) (auto simp: clients_deliver closed_deliver)

lemma dom_deliver_rest:
  "c \<notin> set cs \<Longrightarrow> x \<in> set cs \<Longrightarrow>
   x \<in> dom (clients (deliver e js m c w)) \<longleftrightarrow> x \<in> dom (clients w)"
  by (auto simp: clients_deliver)

lemma appends_fan_out:
  "distinct cs \<Longrightarrow>
   appends (trace (fan_out e js m cs w)) =
     appends (trace w) + length (filter (\<lambda>c. c \<in> dom (clients w)) cs)"
proof (induction cs arbitrary: w)
  case Nil
  then show ?case by simp
next
  case (Cons c cs)
  have same: "filter (\<lambda>x. x \<in> dom (clients (deliver e js m c w))) cs
      = filter (\<lambda>x. x \<in> dom (clients w)) cs"
    using Cons.prems by (intro filter_cong refl dom_deliver_rest) simp_all
  show ?case
  proof (cases "c \<in> dom (clients w)")
    case True
    then show ?thesis using Cons.prems Cons.IH [of "deliver e js m c w"]
      by (simp add: same appends_deliver)
  next
    case False
    then show ?thesis using Cons.prems Cons.IH [of w] by simp
  qed
qed

lemma attempts_fan_out:
  "distinct cs \<Longrightarrow>
   attempts x (trace (fan_out e js m cs w)) =
     attempts x (trace w)
       @ (if x \<in> set cs \<and> x \<in> dom (clients w) then [(js, write_res e x)] else [])"
proof (induction cs arbitrary: w)
  case Nil
  then show ?case by simp
next
  case (Cons c cs)
  show ?case
  proof (cases "c \<in> dom (clients w)")
    case True
    have "x \<in> set cs \<Longrightarrow> x \<in> dom (clients (deliver e js m c w)) \<longleftrightarrow> x \<in> dom (clients w)"
      using Cons.prems by (intro dom_deliver_rest) simp_all
    then show ?thesis using True Cons.prems Cons.IH [of "deliver e js m c w"]
      by (auto simp: attempts_deliver)
  next
    case False
    then show ?thesis using Cons.prems Cons.IH [of w] by auto
  qed
qed

lemma unregister_absent: "client \<notin> dom (clients w) \<Longrightarrow> unregister client w = w"
  by (simp add: unregister_def)

lemma clients_unregister: "clients (unregister client w) = (clients w)(client := None)"
  by (auto simp: unregister_def says_def Let_def)

lemma clients_register: "clients (register c w) = (clients w)(c \<mapsto> True)"
  by (simp add: register_def Let_def)

lemma dom_clients_broadcast: "dom (clients (broadcast marshal e m w)) \<subseteq> dom (clients w)"
  by (auto simp: broadcast_def clients_fan_out split: option.splits if_splits)

lemma finite_dom_hub_case:
  "finite (dom (clients w)) \<Longrightarrow> finite (dom (clients (hub_case marshal r w)))"
proof (cases r)
  case (Broadcast m e)
  assume "finite (dom (clients w))"
  then show ?thesis using dom_clients_broadcast [of marshal e m w] Broadcast
    by (auto intro: finite_subset)
qed (simp_all add: clients_register clients_unregister)

lemma finite_dom_run:
  "finite (dom (clients w)) \<Longrightarrow> finite (dom (clients (run marshal rs w)))"
  by (induction rs arbitrary: w) (simp_all add: finite_dom_hub_case)

lemma dom_run_membership:
  "membership_only rs \<Longrightarrow>
   dom (clients (run marshal rs w)) = registered_minus_unregistered rs (dom (clients w))"
proof (induction rs arbitrary: w)
  case Nil
  then show ?case by simp
next
  case (Cons r rs)
  then show ?case
    by (cases r) (simp_all add: clients_register clients_unregister)
qed

lemma registered_minus_unregistered_diff:
  "never_reused rs \<Longrightarrow>
   registered_minus_unregistered rs members = (members \<union> registered rs) - unregistered rs"
proof (induction rs arbitrary: members)
  case Nil
  then show ?case by simp
next
  case (Cons r rs)
  then show ?case by (cases r) auto
qed

lemma run_append: "run marshal (rs @ rs') w = run marshal rs' (run marshal rs w)"
  by (induction rs arbitrary: w) simp_all

lemma len_clients_register:
  "finite (dom (clients w)) \<Longrightarrow> c \<notin> dom (clients w) \<Longrightarrow>
   len_clients (register c w) = len_clients w + 1"
  by (simp add: len_clients_def clients_register)

section \<open>Unregistering\<close>

text \<open>
  C4. Unregistering a connection that is in the map deletes it and closes it, and touches
  no other key; unregistering one that is not in the map returns the state as it was;
  and unregistering twice is unregistering once.
\<close>

theorem unregister_idempotent:
  "(client \<in> dom (clients w) \<longrightarrow>
      clients (unregister client w) = (clients w)(client := None)
      \<and> client \<notin> dom (clients (unregister client w))
      \<and> closed (unregister client w) = insert client (closed w))
   \<and> (client \<notin> dom (clients w) \<longrightarrow> unregister client w = w)
   \<and> unregister client (unregister client w) = unregister client w"
proof (intro conjI impI)
  assume "client \<in> dom (clients w)"
  then show "closed (unregister client w) = insert client (closed w)"
    by (simp add: unregister_def says_def Let_def)
next
  show "unregister client (unregister client w) = unregister client w"
    by (rule unregister_absent) (simp add: clients_unregister)
qed (simp_all add: clients_unregister unregister_absent)

theorem unregister_idempotent_witness:
  "1 \<in> dom (clients three_listeners)
   \<and> dom (clients (unregister 1 three_listeners)) = {2, 3}
   \<and> closed (unregister 1 three_listeners) = {1}
   \<and> 4 \<notin> dom (clients three_listeners)
   \<and> unregister 4 three_listeners = three_listeners
   \<and> unregister 1 (unregister 1 three_listeners) = unregister 1 three_listeners"
proof -
  have present: "1 \<in> dom (clients three_listeners)"
    and absent: "4 \<notin> dom (clients three_listeners)"
    and none_closed: "closed three_listeners = {}"
    by (simp_all add: three_listeners_def hub0_def)
  have "clients (unregister 1 three_listeners) = (clients three_listeners)(1 := None)"
    using unregister_idempotent [of 1 three_listeners] present by blast
  then have rest: "dom (clients (unregister 1 three_listeners)) = {2, 3}"
    by (auto simp: three_listeners_def hub0_def)
  have shut: "closed (unregister 1 three_listeners) = {1}"
    using unregister_idempotent [of 1 three_listeners] present none_closed by simp
  have noop: "unregister 4 three_listeners = three_listeners"
    using unregister_idempotent [of 4 three_listeners] absent by blast
  have twice: "unregister 1 (unregister 1 three_listeners) = unregister 1 three_listeners"
    using unregister_idempotent [of 1 three_listeners] by blast
  show ?thesis using present absent rest shut noop twice by blast
qed

section \<open>Membership of the registry\<close>

text \<open>
  C3. After any finite sequence of registrations and unregistrations, from any state, the
  keys of \<open>clients\<close> are the keys at the start with each registered connection added and
  each unregistered one taken away, in the order of the requests. From the empty hub, and
  when no connection is registered again after it was unregistered, that is the set of
  the connections registered minus the set of those unregistered. The map holds a key at
  most once; registering a connection that is not a key raises \<open>len(hub.clients)\<close> by
  one.
\<close>

theorem registry_membership:
  assumes "membership_only rs"
  shows "dom (clients (run marshal rs w)) = registered_minus_unregistered rs (dom (clients w))
    \<and> (never_reused rs \<longrightarrow>
         dom (clients (run marshal rs hub0)) = registered rs - unregistered rs)
    \<and> (c \<notin> dom (clients (run marshal rs hub0)) \<longrightarrow>
         len_clients (run marshal (rs @ [Register c]) hub0)
           = len_clients (run marshal rs hub0) + 1)"
proof (intro conjI impI)
  show "dom (clients (run marshal rs w)) = registered_minus_unregistered rs (dom (clients w))"
    using assms by (rule dom_run_membership)
next
  assume "never_reused rs"
  then show "dom (clients (run marshal rs hub0)) = registered rs - unregistered rs"
    using assms by (simp add: dom_run_membership registered_minus_unregistered_diff hub0_def)
next
  assume absent: "c \<notin> dom (clients (run marshal rs hub0))"
  have fin: "finite (dom (clients (run marshal rs hub0)))"
    by (rule finite_dom_run) (simp add: hub0_def)
  have "run marshal (rs @ [Register c]) hub0 = register c (run marshal rs hub0)"
    by (simp add: run_append)
  then show "len_clients (run marshal (rs @ [Register c]) hub0)
      = len_clients (run marshal rs hub0) + 1"
    using fin absent by (simp add: len_clients_register)
qed

theorem registry_membership_witness:
  "membership_only [Register 1, Register 2, Unregister 1]
   \<and> never_reused [Register 1, Register 2, Unregister 1]
   \<and> dom (clients (run text_of [Register 1, Register 2, Unregister 1] hub0)) = {2}
   \<and> registered [Register 1, Register 2, Unregister 1]
        - unregistered [Register 1, Register 2, Unregister 1] = {2}
   \<and> len_clients (run text_of [Register 1, Register 2, Unregister 1] hub0) = 1
   \<and> len_clients (run text_of ([Register 1, Register 2, Unregister 1] @ [Register 3]) hub0) = 2"
proof -
  have only: "membership_only [Register 1, Register 2, Unregister 1]" by simp
  have fresh: "never_reused [Register 1, Register 2, Unregister 1]" by simp
  have diff: "registered [Register 1, Register 2, Unregister 1]
        - unregistered [Register 1, Register 2, Unregister 1] = {2}" by auto
  note inst = registry_membership [OF only, of text_of hub0 3]
  have now: "dom (clients (run text_of [Register 1, Register 2, Unregister 1] hub0)) = {2}"
    using inst [THEN conjunct2, THEN conjunct1] fresh diff by simp
  then have one: "len_clients (run text_of [Register 1, Register 2, Unregister 1] hub0) = 1"
    by (simp add: len_clients_def)
  have "len_clients (run text_of ([Register 1, Register 2, Unregister 1] @ [Register 3]) hub0) = 2"
    using inst [THEN conjunct2, THEN conjunct2] now one by simp
  then show ?thesis using only fresh diff now one by blast
qed

section \<open>Broadcast: delivery and reaping\<close>

text \<open>
  C2. In a broadcast whose message marshals, every connection in the registry at the
  start gets exactly one write of the marshalled text, whatever the writes to the others
  returned. A connection whose write returns an error, the deadline of 10 seconds
  exceeded included, is no longer a key of \<open>clients\<close> and is closed when the broadcast
  ends; one whose write goes through stays as it was.
\<close>

theorem broadcast_delivery_independent:
  assumes "marshal m = Some js" and "ranges_over e w"
  shows "\<forall>c \<in> dom (clients w).
     attempts c (trace (broadcast marshal e m w)) = attempts c (trace w) @ [(js, write_res e c)]
     \<and> (write_res e c \<noteq> WriteOk \<longrightarrow>
          c \<notin> dom (clients (broadcast marshal e m w)) \<and> c \<in> closed (broadcast marshal e m w))
     \<and> (write_res e c = WriteOk \<longrightarrow>
          clients (broadcast marshal e m w) c = clients w c
          \<and> (c \<in> closed (broadcast marshal e m w) \<longleftrightarrow> c \<in> closed w))"
proof
  fix c assume c: "c \<in> dom (clients w)"
  have b: "broadcast marshal e m w = fan_out e js m (order e) w"
    using assms(1) by (simp add: broadcast_def)
  have d: "distinct (order e)" and s: "c \<in> set (order e)"
    using assms(2) c by (simp_all add: ranges_over_def)
  have "attempts c (trace (fan_out e js m (order e) w))
      = attempts c (trace w) @ [(js, write_res e c)]"
    using d s c by (simp add: attempts_fan_out)
  moreover have "write_res e c \<noteq> WriteOk \<longrightarrow>
      c \<notin> dom (clients (fan_out e js m (order e) w)) \<and> c \<in> closed (fan_out e js m (order e) w)"
    using s c by (simp add: clients_fan_out closed_fan_out domIff)
  moreover have "write_res e c = WriteOk \<longrightarrow>
      clients (fan_out e js m (order e) w) c = clients w c
      \<and> (c \<in> closed (fan_out e js m (order e) w) \<longleftrightarrow> c \<in> closed w)"
    by (simp add: clients_fan_out closed_fan_out)
  ultimately show "attempts c (trace (broadcast marshal e m w))
        = attempts c (trace w) @ [(js, write_res e c)]
     \<and> (write_res e c \<noteq> WriteOk \<longrightarrow>
          c \<notin> dom (clients (broadcast marshal e m w)) \<and> c \<in> closed (broadcast marshal e m w))
     \<and> (write_res e c = WriteOk \<longrightarrow>
          clients (broadcast marshal e m w) c = clients w c
          \<and> (c \<in> closed (broadcast marshal e m w) \<longleftrightarrow> c \<in> closed w))"
    unfolding b by blast
qed

lemma ranges_over_example: "ranges_over second_times_out three_listeners"
  by (auto simp: ranges_over_def second_times_out_def three_listeners_def hub0_def)

lemma text_of_hi: "text_of hi = Some ''x: hi''"
  by (simp add: text_of_def hi_def)

theorem broadcast_delivery_independent_witness:
  "text_of hi = Some ''x: hi'' \<and> ranges_over second_times_out three_listeners
   \<and> write_res second_times_out 2 = DeadlineExceeded
   \<and> attempts 1 (trace (broadcast text_of second_times_out hi three_listeners)) = [(''x: hi'', WriteOk)]
   \<and> attempts 2 (trace (broadcast text_of second_times_out hi three_listeners))
       = [(''x: hi'', DeadlineExceeded)]
   \<and> attempts 3 (trace (broadcast text_of second_times_out hi three_listeners)) = [(''x: hi'', WriteOk)]
   \<and> 2 \<notin> dom (clients (broadcast text_of second_times_out hi three_listeners))
   \<and> 2 \<in> closed (broadcast text_of second_times_out hi three_listeners)
   \<and> clients (broadcast text_of second_times_out hi three_listeners) 1 = Some True
   \<and> clients (broadcast text_of second_times_out hi three_listeners) 3 = Some True"
proof -
  have all: "\<forall>c \<in> {1, 2, 3}.
     attempts c (trace (broadcast text_of second_times_out hi three_listeners))
       = attempts c (trace three_listeners) @ [(''x: hi'', write_res second_times_out c)]
     \<and> (write_res second_times_out c \<noteq> WriteOk \<longrightarrow>
          c \<notin> dom (clients (broadcast text_of second_times_out hi three_listeners))
          \<and> c \<in> closed (broadcast text_of second_times_out hi three_listeners))
     \<and> (write_res second_times_out c = WriteOk \<longrightarrow>
          clients (broadcast text_of second_times_out hi three_listeners) c = clients three_listeners c
          \<and> (c \<in> closed (broadcast text_of second_times_out hi three_listeners)
               \<longleftrightarrow> c \<in> closed three_listeners))"
    using broadcast_delivery_independent
      [of text_of hi "''x: hi''" second_times_out three_listeners, OF text_of_hi ranges_over_example]
    by (simp add: three_listeners_def hub0_def)
  have w: "write_res second_times_out 1 = WriteOk" "write_res second_times_out 2 = DeadlineExceeded"
    "write_res second_times_out 3 = WriteOk"
    by (simp_all add: second_times_out_def)
  have t: "trace three_listeners = []" "clients three_listeners 1 = Some True"
    "clients three_listeners 3 = Some True"
    by (simp_all add: three_listeners_def hub0_def)
  show ?thesis using all w t text_of_hi ranges_over_example by simp
qed

section \<open>Broadcast: calls of \<open>addMessage\<close>\<close>

lemma length_order: "ranges_over e w \<Longrightarrow> length (order e) = len_clients w"
  by (auto simp: ranges_over_def len_clients_def dest: distinct_card)

lemma filter_order: "ranges_over e w \<Longrightarrow> filter (\<lambda>c. c \<in> dom (clients w)) (order e) = order e"
  by (simp add: ranges_over_def)

text \<open>
  C10. In a broadcast whose message marshals, \<open>addMessage\<close> is called once for every
  connection in the registry at the start of the loop, whether the write to it went
  through or not. With an empty registry the loop body never runs: the sender of a
  message with a text is answered with status 200 and the hub, its table included, is as
  it was.
\<close>

theorem appends_once_per_connection:
  assumes "marshal m = Some js" and "ranges_over e w"
  shows "appends (trace (broadcast marshal e m w)) = appends (trace w) + len_clients w
    \<and> (dom (clients w) = {} \<and> Message m \<noteq> '''' \<longrightarrow>
         send_request marshal (Inr m) e w
           = (JSON 200 (StatusBody ''Message successfully sent''), w))"
proof (intro conjI impI)
  have "distinct (order e)" using assms(2) by (simp add: ranges_over_def)
  then have "appends (trace (fan_out e js m (order e) w))
      = appends (trace w) + length (filter (\<lambda>c. c \<in> dom (clients w)) (order e))"
    by (rule appends_fan_out)
  then show "appends (trace (broadcast marshal e m w)) = appends (trace w) + len_clients w"
    using assms by (simp add: broadcast_def filter_order length_order)
next
  assume empty: "dom (clients w) = {} \<and> Message m \<noteq> ''''"
  then have "fan_out e js m (order e) w = w"
    by (intro fan_out_untouched) simp
  then show "send_request marshal (Inr m) e w
      = (JSON 200 (StatusBody ''Message successfully sent''), w)"
    using assms(1) empty by (simp add: send_request_def sendHandler_def broadcast_def)
qed

theorem appends_once_per_connection_witness:
  "text_of hi = Some ''x: hi'' \<and> ranges_over second_times_out three_listeners
   \<and> appends (trace (broadcast text_of second_times_out hi three_listeners)) = 3
   \<and> ranges_over nobody hub0 \<and> dom (clients hub0) = {} \<and> Message hi \<noteq> ''''
   \<and> send_request text_of (Inr hi) nobody hub0
       = (JSON 200 (StatusBody ''Message successfully sent''), hub0)"
proof -
  have none: "ranges_over nobody hub0" "dom (clients hub0) = {}" "Message hi \<noteq> ''''"
    by (simp_all add: ranges_over_def nobody_def hub0_def hi_def)
  have three: "appends (trace three_listeners) = 0" "len_clients three_listeners = 3"
    by (simp_all add: three_listeners_def hub0_def len_clients_def)
  have "appends (trace (broadcast text_of second_times_out hi three_listeners)) = 3"
    using appends_once_per_connection
      [of text_of hi "''x: hi''" second_times_out three_listeners,
        OF text_of_hi ranges_over_example, THEN conjunct1] three
    by simp
  moreover have "send_request text_of (Inr hi) nobody hub0
       = (JSON 200 (StatusBody ''Message successfully sent''), hub0)"
    using appends_once_per_connection
      [of text_of hi "''x: hi''" nobody hub0, OF text_of_hi none(1), THEN conjunct2] none
    by simp
  ultimately show ?thesis using none text_of_hi ranges_over_example by simp
qed

text \<open>
  C1. The claim asks for one call of \<open>addMessage\<close> per broadcast message. With three
  listeners, one of which fails its write, the hub calls it three times and stores three
  rows for the one message; with no listener it calls it not at all and stores nothing.
\<close>

theorem append_runs_per_listener:
  "len_clients three_listeners = 3
   \<and> appends (trace (broadcast text_of second_times_out hi three_listeners)) = 3
   \<and> length (tts_messages (broadcast text_of second_times_out hi three_listeners)) = 3
   \<and> appends (trace (broadcast text_of nobody hi hub0)) = 0
   \<and> tts_messages (broadcast text_of nobody hi hub0) = []"
  by (simp add: broadcast_def text_of_def second_times_out_def three_listeners_def hub0_def
      nobody_def deliver_def says_def addMessage_def len_clients_def Let_def)

section \<open>The send endpoint\<close>

text \<open>
  C5. A bound request whose text is empty is answered with status 400 and nothing is put
  on the broadcast channel: the state of the hub, registry and table, is unchanged. A
  request with a text is handed to the hub as a broadcast and answered with status 200.
\<close>

theorem send_rejects_empty_body:
  "(Message m = '''' \<longrightarrow>
      sendHandler (Inr m) = (JSON 400 (ErrorBody ''Message cannot be empty''), None)
      \<and> send_request marshal (Inr m) e w = (JSON 400 (ErrorBody ''Message cannot be empty''), w))
   \<and> (Message m \<noteq> '''' \<longrightarrow>
      sendHandler (Inr m) = (JSON 200 (StatusBody ''Message successfully sent''), Some m)
      \<and> send_request marshal (Inr m) e w
          = (JSON 200 (StatusBody ''Message successfully sent''), broadcast marshal e m w))"
  by (simp add: sendHandler_def send_request_def)

theorem send_rejects_empty_body_witness:
  "Message (hi\<lparr>Message := ''''\<rparr>) = ''''
   \<and> send_request text_of (Inr (hi\<lparr>Message := ''''\<rparr>)) second_times_out three_listeners
       = (JSON 400 (ErrorBody ''Message cannot be empty''), three_listeners)
   \<and> Message hi \<noteq> ''''
   \<and> sendHandler (Inr hi) = (JSON 200 (StatusBody ''Message successfully sent''), Some hi)
   \<and> send_request text_of (Inr hi) second_times_out three_listeners
       = (JSON 200 (StatusBody ''Message successfully sent''),
          broadcast text_of second_times_out hi three_listeners)"
  using send_rejects_empty_body [of "hi\<lparr>Message := ''''\<rparr>" text_of second_times_out three_listeners]
    send_rejects_empty_body [of hi text_of second_times_out three_listeners]
  by (simp add: hi_def)

section \<open>The range query\<close>

lemma next_rows_read:
  "next_rows fs (messages, logs) =
     (messages @ map scanned (rows_read fs),
      logs @ (if scan_fails fs then [''Error scanning row''] else []),
      scan_fails fs)"
  by (induction fs arbitrary: messages rule: rows_read.induct) simp_all

lemma rows_read_Scans: "rows_read (map Scans rs) = rs"
  and scan_fails_Scans: "\<not> scan_fails (map Scans rs)"
  by (induction rs) simp_all

lemma getMessages_QueryRows:
  "getMessages (QueryRows fs cursor_err) =
     (map scanned (rows_read fs),
      (if scan_fails fs then [''Error scanning row''] else [])
        @ (if cursor_err \<or> scan_fails fs then [''Error iterating rows''] else []))"
  by (simp add: getMessages_def next_rows_read)

lemma getMessages_healthy:
  "getMessages (healthy tbl from to) = (map scanned (selectMessagesQuery tbl from to), [])"
  by (simp add: getMessages_QueryRows healthy_def rows_read_Scans scan_fails_Scans)

lemma fields_scanned:
  "map SessionID (map scanned rs) = map (\<lambda>r. '''') rs"
  "map Name (map scanned rs) = map name rs"
  "map Amount (map scanned rs) = map amount rs"
  "map Message (map scanned rs) = map message rs"
  "map Description (map scanned rs) = map description rs"
  by (simp_all add: scanned_def)

lemma mset_selectMessagesQuery:
  "mset (selectMessagesQuery tbl from to) = filter_mset (in_range from to) (mset tbl)"
proof -
  have "(\<lambda>r. from \<le> created_at r \<and> created_at r \<le> to) = in_range from to"
    by (auto simp: in_range_def)
  then show ?thesis by (simp add: selectMessagesQuery_def)
qed

lemma sorted_selectMessagesQuery:
  "sorted_wrt (\<lambda>a b. created_at a \<ge> created_at b) (selectMessagesQuery tbl from to)"
proof -
  have "sorted (map (\<lambda>r. - created_at r) (selectMessagesQuery tbl from to))"
    by (simp add: selectMessagesQuery_def)
  then show ?thesis by (simp add: sorted_map)
qed

lemma messagesHandler_parsed:
  "messagesHandler (Inr from) (Inr to) query
     = (JSON 200 (MessagesBody (fst (getMessages (query from to)))), snd (getMessages (query from to)))"
  by (simp add: messagesHandler_def split: prod.splits)

text \<open>
  C6. Against a database that answers the query, \<open>getMessages\<close> logs nothing and returns
  one message for each row of the table whose creation time lies in the closed interval
  from \<open>from\<close> to \<open>to\<close>, no other row and none twice, in an order in which the
  creation times of the rows descend. The message of a row has the name, the amount, the
  text and the description stored in that row; its session is empty, the query does not
  select that column. The endpoint answers with status 200 and these messages. When no
  row lies in the interval the result is the empty list and the endpoint answers with
  status 200 and no messages. This holds for any two bounds, in particular for
  \<open>from \<le> to\<close>.
\<close>

theorem range_query_newest_first:
  "(\<exists>rs. mset rs = filter_mset (in_range from to) (mset tbl)
      \<and> sorted_wrt (\<lambda>a b. created_at a \<ge> created_at b) rs
      \<and> map Name (fst (getMessages (healthy tbl from to))) = map name rs
      \<and> map Amount (fst (getMessages (healthy tbl from to))) = map amount rs
      \<and> map Message (fst (getMessages (healthy tbl from to))) = map message rs
      \<and> map Description (fst (getMessages (healthy tbl from to))) = map description rs
      \<and> map SessionID (fst (getMessages (healthy tbl from to))) = map (\<lambda>r. '''') rs)
   \<and> snd (getMessages (healthy tbl from to)) = []
   \<and> messagesHandler (Inr from) (Inr to) (healthy tbl)
       = (JSON 200 (MessagesBody (fst (getMessages (healthy tbl from to)))), [])
   \<and> (filter (in_range from to) tbl = [] \<longrightarrow>
        getMessages (healthy tbl from to) = ([], [])
        \<and> messagesHandler (Inr from) (Inr to) (healthy tbl) = (JSON 200 (MessagesBody []), []))"
proof (intro conjI impI)
  show "\<exists>rs. mset rs = filter_mset (in_range from to) (mset tbl)
      \<and> sorted_wrt (\<lambda>a b. created_at a \<ge> created_at b) rs
      \<and> map Name (fst (getMessages (healthy tbl from to))) = map name rs
      \<and> map Amount (fst (getMessages (healthy tbl from to))) = map amount rs
      \<and> map Message (fst (getMessages (healthy tbl from to))) = map message rs
      \<and> map Description (fst (getMessages (healthy tbl from to))) = map description rs
      \<and> map SessionID (fst (getMessages (healthy tbl from to))) = map (\<lambda>r. '''') rs"
  proof (intro exI [of _ "selectMessagesQuery tbl from to"] conjI)
    show "mset (selectMessagesQuery tbl from to) = filter_mset (in_range from to) (mset tbl)"
      by (rule mset_selectMessagesQuery)
    show "sorted_wrt (\<lambda>a b. created_at a \<ge> created_at b) (selectMessagesQuery tbl from to)"
      by (rule sorted_selectMessagesQuery)
  qed (simp_all only: getMessages_healthy fst_conv fields_scanned)
next
  show "snd (getMessages (healthy tbl from to)) = []"
    by (simp add: getMessages_healthy)
  show "messagesHandler (Inr from) (Inr to) (healthy tbl)
       = (JSON 200 (MessagesBody (fst (getMessages (healthy tbl from to)))), [])"
    by (simp add: messagesHandler_parsed getMessages_healthy)
next
  assume none: "filter (in_range from to) tbl = []"
  have "mset (selectMessagesQuery tbl from to) = mset (filter (in_range from to) tbl)"
    by (simp add: mset_selectMessagesQuery)
  then have "selectMessagesQuery tbl from to = []" using none by simp
  then show "getMessages (healthy tbl from to) = ([], [])"
    and "messagesHandler (Inr from) (Inr to) (healthy tbl) = (JSON 200 (MessagesBody []), [])"
    by (simp_all add: messagesHandler_parsed getMessages_healthy)
qed

lemma getMessages_three_rows:
  "fst (getMessages (healthy three_rows 5 7))
     = [\<lparr>SessionID = '''', Name = ''b'', Amount = 0x3F800000, Message = ''second'',
          Description = ''from b''\<rparr>,
        \<lparr>SessionID = '''', Name = ''a'', Amount = 0x40A00000, Message = ''first'',
          Description = ''from a''\<rparr>]"
  by (simp add: getMessages_healthy selectMessagesQuery_def three_rows_def scanned_def)

theorem range_query_newest_first_witness:
  "filter (in_range 20 30) three_rows = []
   \<and> messagesHandler (Inr 20) (Inr 30) (healthy three_rows) = (JSON 200 (MessagesBody []), [])
   \<and> messagesHandler (Inr 5) (Inr 7) (healthy three_rows)
       = (JSON 200 (MessagesBody
            [\<lparr>SessionID = '''', Name = ''b'', Amount = 0x3F800000, Message = ''second'',
               Description = ''from b''\<rparr>,
             \<lparr>SessionID = '''', Name = ''a'', Amount = 0x40A00000, Message = ''first'',
               Description = ''from a''\<rparr>]), [])"
proof -
  have none: "filter (in_range 20 30) three_rows = []"
    by (simp add: in_range_def three_rows_def)
  have "messagesHandler (Inr 5) (Inr 7) (healthy three_rows)
       = (JSON 200 (MessagesBody (fst (getMessages (healthy three_rows 5 7)))), [])"
    using range_query_newest_first [of 5 7 three_rows] by blast
  then have some: "messagesHandler (Inr 5) (Inr 7) (healthy three_rows)
       = (JSON 200 (MessagesBody
            [\<lparr>SessionID = '''', Name = ''b'', Amount = 0x3F800000, Message = ''second'',
               Description = ''from b''\<rparr>,
             \<lparr>SessionID = '''', Name = ''a'', Amount = 0x40A00000, Message = ''first'',
               Description = ''from a''\<rparr>]), [])"
    by (simp only: getMessages_three_rows)
  have "messagesHandler (Inr 20) (Inr 30) (healthy three_rows) = (JSON 200 (MessagesBody []), [])"
    using range_query_newest_first [of 20 30 three_rows] none by blast
  then show ?thesis using none some by blast
qed

text \<open>
  C7, as the code has it. When the query fails, at the call of \<open>Query\<close>, at the scan
  of a row or at the end of the cursor, the failure is logged and the endpoint answers
  with status 200, which is no server error, and with the messages of the rows read
  before the failure: none when \<open>Query\<close> itself returned the error, and otherwise one
  for each row scanned before the first failed scan, with the name, amount, text and
  description of that row.
\<close>

theorem query_failure_only_logged:
  assumes "query_failed (query from to)"
  shows "\<exists>messages logs.
     messagesHandler (Inr from) (Inr to) query = (JSON 200 (MessagesBody messages), logs)
     \<and> \<not> server_error (JSON 200 (MessagesBody messages))
     \<and> logs \<noteq> []
     \<and> (query from to = QueryError \<longrightarrow>
          messages = [] \<and> logs = [''Error querying database''])
     \<and> (\<forall>fs cursor_err. query from to = QueryRows fs cursor_err \<longrightarrow>
          map Name messages = map name (rows_read fs)
          \<and> map Amount messages = map amount (rows_read fs)
          \<and> map Message messages = map message (rows_read fs)
          \<and> map Description messages = map description (rows_read fs)
          \<and> map SessionID messages = map (\<lambda>r. '''') (rows_read fs)
          \<and> last logs = ''Error iterating rows'')"
proof (cases "query from to")
  case QueryError
  then show ?thesis
    by (simp add: messagesHandler_parsed getMessages_def server_error_def)
next
  case (QueryRows fs cursor_err)
  then have bad: "cursor_err \<or> scan_fails fs" using assms by simp
  have got: "getMessages (query from to) =
     (map scanned (rows_read fs),
      (if scan_fails fs then [''Error scanning row''] else []) @ [''Error iterating rows''])"
    using QueryRows bad by (auto simp: getMessages_QueryRows)
  show ?thesis
  proof (intro exI conjI)
    show "messagesHandler (Inr from) (Inr to) query
        = (JSON 200 (MessagesBody (map scanned (rows_read fs))),
           (if scan_fails fs then [''Error scanning row''] else []) @ [''Error iterating rows''])"
      by (simp add: messagesHandler_parsed got)
    show "\<not> server_error (JSON 200 (MessagesBody (map scanned (rows_read fs))))"
      by (simp add: server_error_def)
    show "(if scan_fails fs then [''Error scanning row''] else []) @ [''Error iterating rows''] \<noteq> []"
      by simp
    show "query from to = QueryError \<longrightarrow>
        map scanned (rows_read fs) = []
        \<and> (if scan_fails fs then [''Error scanning row''] else []) @ [''Error iterating rows'']
            = [''Error querying database'']"
      using QueryRows by simp
    show "\<forall>fs' cursor_err'. query from to = QueryRows fs' cursor_err' \<longrightarrow>
          map Name (map scanned (rows_read fs)) = map name (rows_read fs')
          \<and> map Amount (map scanned (rows_read fs)) = map amount (rows_read fs')
          \<and> map Message (map scanned (rows_read fs)) = map message (rows_read fs')
          \<and> map Description (map scanned (rows_read fs)) = map description (rows_read fs')
          \<and> map SessionID (map scanned (rows_read fs)) = map (\<lambda>r. '''') (rows_read fs')
          \<and> last ((if scan_fails fs then [''Error scanning row''] else [])
                @ [''Error iterating rows'']) = ''Error iterating rows''"
      using QueryRows by (simp add: scanned_def)
  qed
qed

theorem query_failure_only_logged_witness:
  "query_failed (down 1 2)
   \<and> messagesHandler (Inr 1) (Inr 2) down
        = (JSON 200 (MessagesBody []), [''Error querying database''])
   \<and> query_failed (cut_off 5 12)
   \<and> messagesHandler (Inr 5) (Inr 12) cut_off
        = (JSON 200 (MessagesBody
             [\<lparr>SessionID = '''', Name = ''c'', Amount = 0x40000000, Message = ''third'',
                Description = ''from c''\<rparr>]),
           [''Error iterating rows''])"
proof -
  have d: "query_failed (down 1 2)" and dq: "down 1 2 = QueryError"
    by (simp_all add: down_def)
  have c: "query_failed (cut_off 5 12)"
    and cq: "cut_off 5 12 = QueryRows [Scans (three_rows ! 2)] True"
    by (simp_all add: cut_off_def)
  obtain messages logs where
    "messagesHandler (Inr 1) (Inr 2) down = (JSON 200 (MessagesBody messages), logs)"
    "down 1 2 = QueryError \<longrightarrow> messages = [] \<and> logs = [''Error querying database'']"
    using query_failure_only_logged [of down 1 2, OF d] by blast
  then have first: "messagesHandler (Inr 1) (Inr 2) down
        = (JSON 200 (MessagesBody []), [''Error querying database''])"
    using dq by simp
  have second: "messagesHandler (Inr 5) (Inr 12) cut_off
        = (JSON 200 (MessagesBody
             [\<lparr>SessionID = '''', Name = ''c'', Amount = 0x40000000, Message = ''third'',
                Description = ''from c''\<rparr>]),
           [''Error iterating rows''])"
    using query_failure_only_logged [of cut_off 5 12, OF c]
    by (simp add: messagesHandler_parsed cq getMessages_QueryRows three_rows_def scanned_def)
  show ?thesis using d c first second by blast
qed

text \<open>
  C7, as stated, fails: with a database that fails the query, the answer to a request
  with well-formed bounds is status 200 with no messages, which is no server error.
\<close>

theorem query_failure_not_a_server_error:
  "down 0 10 = QueryError
   \<and> fst (messagesHandler (Inr 0) (Inr 10) down) = JSON 200 (MessagesBody [])
   \<and> \<not> server_error (fst (messagesHandler (Inr 0) (Inr 10) down))"
  by (simp add: down_def messagesHandler_def getMessages_def server_error_def)

section \<open>The listen endpoint\<close>

declare keepalive.simps [simp del]

lemma keepalive_returned:
  "keepalive now drained pings reads = (acts, st, fin) \<Longrightarrow>
   (st = Returned) = (\<exists>a \<in> set acts. failed a)"
proof (induction now drained pings reads arbitrary: acts st fin rule: keepalive.induct)
  case (1 now drained pings reads)
  show ?case
  proof (cases "tick_pending drained now")
    case True
    show ?thesis
    proof (cases pings)
      case Nil
      then show ?thesis using True "1.prems"
        by (simp add: keepalive.simps [of now drained] failed_def)
    next
      case (Cons p pings')
      obtain d r where p: "p = (d, r)" by (cases p)
      show ?thesis
      proof (cases "r = WriteOk")
        case False
        then show ?thesis using True Cons p "1.prems"
          by (auto simp: keepalive.simps [of now drained] failed_def)
      next
        case ok: True
        obtain acts' st' fin' where rec: "keepalive (now + d) now pings' reads = (acts', st', fin')"
          by (cases "keepalive (now + d) now pings' reads") auto
        have "(st' = Returned) = (\<exists>a \<in> set acts'. failed a)"
          using "1.IH"(1) [OF True Cons p [symmetric]] ok rec by simp
        then show ?thesis using True Cons p ok rec "1.prems"
          by (auto simp: keepalive.simps [of now drained] failed_def)
      qed
    qed
  next
    case False
    show ?thesis
    proof (cases reads)
      case Nil
      then show ?thesis using False "1.prems"
        by (simp add: keepalive.simps [of now drained] failed_def)
    next
      case (Cons p reads')
      obtain d r where p: "p = (d, r)" by (cases p)
      show ?thesis
      proof (cases r)
        case (ReadError u)
        then show ?thesis using False Cons p "1.prems"
          by (auto simp: keepalive.simps [of now drained] failed_def)
      next
        case ReadOk
        obtain acts' st' fin' where rec: "keepalive (now + d) drained pings reads' = (acts', st', fin')"
          by (cases "keepalive (now + d) drained pings reads'") auto
        have "(st' = Returned) = (\<exists>a \<in> set acts'. failed a)"
          using "1.IH"(2) [OF False Cons p [symmetric] ReadOk] rec by simp
        then show ?thesis using False Cons p ReadOk rec "1.prems"
          by (auto simp: keepalive.simps [of now drained] failed_def)
      qed
    qed
  qed
qed

lemma closed_unregister:
  "closed (unregister c w) = (if c \<in> dom (clients w) then insert c (closed w) else closed w)"
  by (simp add: unregister_def says_def Let_def)

lemma tts_messages_unregister: "tts_messages (unregister c w) = tts_messages w"
  by (simp add: unregister_def says_def Let_def)

lemma closed_register: "closed (register c w) = closed w"
  by (simp add: register_def Let_def)

lemma closed_broadcast: "closed w \<subseteq> closed (broadcast marshal e m w)"
  by (auto simp: broadcast_def closed_fan_out split: option.splits)

lemma gone_stays_gone:
  "Register ws \<notin> set rs \<Longrightarrow> ws \<notin> dom (clients w) \<Longrightarrow> ws \<in> closed w \<Longrightarrow>
   ws \<notin> dom (clients (run marshal rs w)) \<and> ws \<in> closed (run marshal rs w)"
proof (induction rs arbitrary: w)
  case Nil
  then show ?case by simp
next
  case (Cons r rs)
  have "ws \<notin> dom (clients (hub_case marshal r w)) \<and> ws \<in> closed (hub_case marshal r w)"
  proof (cases r)
    case (Register c)
    then show ?thesis using Cons.prems by (auto simp: clients_register closed_register)
  next
    case (Unregister c)
    then show ?thesis using Cons.prems by (auto simp: clients_unregister closed_unregister)
  next
    case (Broadcast m e)
    then show ?thesis
      using Cons.prems dom_clients_broadcast [of marshal e m w] closed_broadcast [of w marshal e m]
      by auto
  qed
  then show ?case using Cons.prems Cons.IH [of "hub_case marshal r w"] by simp
qed

lemma listenHandler_acts:
  assumes "listenHandler True ws pings reads = (resp, acts, st)"
  shows "\<exists>loop fin. keepalive 0 0 pings reads = (loop, st, fin)
     \<and> acts = [HubRegister ws, SetReadDeadline ws (24 * 3600), SetPongHandler ws] @ loop
         @ (if st = Returned then [TickerStop, HubUnregister ws, Close ws] else [])"
  using assms by (auto simp: listenHandler_def split: prod.splits)

text \<open>
  C9. When a ping fails to be written or a read returns an error, the handler of the
  connection returns, and its last actions are to send the connection to
  \<open>hub.unregister\<close> and to close it. Whatever the state of the hub is then, afterwards
  the connection is not in the registry and is closed, every other connection is in the
  registry and closed exactly if it was before, and the table is untouched. From then on,
  whatever requests the hub takes other than a registration of that same connection
  (a handler registers a connection once, before its loop), it stays out of the registry
  and closed.
\<close>

theorem connection_failure_is_local:
  assumes "listenHandler True ws pings reads = (resp, acts, st)"
    and "\<exists>a \<in> set acts. failed a"
  shows "st = Returned
    \<and> (\<exists>before. acts = before @ [TickerStop, HubUnregister ws, Close ws])
    \<and> ws \<notin> dom (clients (performs [TickerStop, HubUnregister ws, Close ws] w))
    \<and> ws \<in> closed (performs [TickerStop, HubUnregister ws, Close ws] w)
    \<and> (\<forall>c. c \<noteq> ws \<longrightarrow>
          clients (performs [TickerStop, HubUnregister ws, Close ws] w) c = clients w c
          \<and> (c \<in> closed (performs [TickerStop, HubUnregister ws, Close ws] w)) = (c \<in> closed w))
    \<and> tts_messages (performs [TickerStop, HubUnregister ws, Close ws] w) = tts_messages w
    \<and> (Register ws \<notin> set rs \<longrightarrow>
          ws \<notin> dom (clients (run marshal rs (performs [TickerStop, HubUnregister ws, Close ws] w)))
          \<and> ws \<in> closed (run marshal rs (performs [TickerStop, HubUnregister ws, Close ws] w)))"
proof -
  obtain loop fin where loop: "keepalive 0 0 pings reads = (loop, st, fin)"
    and acts: "acts = [HubRegister ws, SetReadDeadline ws (24 * 3600), SetPongHandler ws] @ loop
         @ (if st = Returned then [TickerStop, HubUnregister ws, Close ws] else [])"
    using listenHandler_acts [OF assms(1)] by blast
  have "\<exists>a \<in> set loop. failed a"
    using assms(2) acts by (auto simp: failed_def split: if_splits)
  then have st: "st = Returned"
    using keepalive_returned [OF loop] by simp
  have tail: "\<exists>before. acts = before @ [TickerStop, HubUnregister ws, Close ws]"
    using acts st by simp
  let ?w = "performs [TickerStop, HubUnregister ws, Close ws] w"
  have w': "?w = (unregister ws w)\<lparr>closed := insert ws (closed (unregister ws w))\<rparr>"
    by simp
  have gone: "ws \<notin> dom (clients ?w)" and shut: "ws \<in> closed ?w"
    by (simp_all add: clients_unregister)
  have others: "\<forall>c. c \<noteq> ws \<longrightarrow> clients ?w c = clients w c \<and> (c \<in> closed ?w) = (c \<in> closed w)"
    by (simp add: clients_unregister closed_unregister)
  have store: "tts_messages ?w = tts_messages w"
    by (simp add: tts_messages_unregister)
  have later: "Register ws \<notin> set rs \<longrightarrow>
      ws \<notin> dom (clients (run marshal rs ?w)) \<and> ws \<in> closed (run marshal rs ?w)"
    using gone_stays_gone [OF _ gone shut] by blast
  show ?thesis using st tail gone shut others store later by blast
qed

theorem connection_failure_is_local_witness:
  "listenHandler True 2 [] silent_then_gone
     = (None,
        [HubRegister 2, SetReadDeadline 2 86400, SetPongHandler 2,
         ReadMessage 0 100 (ReadError True),
         Logged ''Error reading message'', TickerStop, HubUnregister 2, Close 2],
        Returned)
   \<and> failed (ReadMessage 0 100 (ReadError True))
   \<and> dom (clients (performs [TickerStop, HubUnregister 2, Close 2] three_listeners)) = {1, 3}
   \<and> 2 \<in> closed (performs [TickerStop, HubUnregister 2, Close 2] three_listeners)
   \<and> Register 2 \<notin> set [Broadcast hi second_times_out, Unregister 2, Register 4]
   \<and> 2 \<notin> dom (clients (run text_of [Broadcast hi second_times_out, Unregister 2, Register 4]
          (performs [TickerStop, HubUnregister 2, Close 2] three_listeners)))"
proof -
  have h: "listenHandler True 2 [] silent_then_gone
     = (None,
        [HubRegister 2, SetReadDeadline 2 86400, SetPongHandler 2,
         ReadMessage 0 100 (ReadError True),
         Logged ''Error reading message'', TickerStop, HubUnregister 2, Close 2],
        Returned)"
    by (simp add: listenHandler_def silent_then_gone_def keepalive.simps tick_pending_def)
  have f: "failed (ReadMessage 0 100 (ReadError True))"
    by (simp add: failed_def)
  then have ex: "\<exists>a \<in> set [HubRegister 2, SetReadDeadline 2 86400, SetPongHandler 2,
         ReadMessage 0 100 (ReadError True),
         Logged ''Error reading message'', TickerStop, HubUnregister 2, Close 2]. failed a"
    by simp
  note inst = connection_failure_is_local [OF h ex, of three_listeners
      "[Broadcast hi second_times_out, Unregister 2, Register 4]" text_of]
  have d: "dom (clients (performs [TickerStop, HubUnregister 2, Close 2] three_listeners)) = {1, 3}"
    by (auto simp: three_listeners_def hub0_def clients_unregister)
  have r: "Register 2 \<notin> set [Broadcast hi second_times_out, Unregister 2, Register 4]"
    by simp
  show ?thesis using inst h f d r by blast
qed

lemma ping_times_not_before:
  "keepalive now drained pings reads = (acts, st, fin) \<Longrightarrow>
   \<forall>t \<in> set (ping_times acts). now \<le> t"
proof (induction now drained pings reads arbitrary: acts st fin rule: keepalive.induct)
  case (1 now drained pings reads)
  show ?case
  proof (cases "tick_pending drained now")
    case True
    show ?thesis
    proof (cases pings)
      case Nil
      then show ?thesis using True "1.prems"
        by (simp add: keepalive.simps [of now drained])
    next
      case (Cons p pings')
      obtain d r where p: "p = (d, r)" by (cases p)
      show ?thesis
      proof (cases "r = WriteOk")
        case False
        then show ?thesis using True Cons p "1.prems"
          by (auto simp: keepalive.simps [of now drained])
      next
        case ok: True
        obtain acts' st' fin' where rec: "keepalive (now + d) now pings' reads = (acts', st', fin')"
          by (cases "keepalive (now + d) now pings' reads") auto
        have "\<forall>t \<in> set (ping_times acts'). now + d \<le> t"
          using "1.IH"(1) [OF True Cons p [symmetric]] ok rec by simp
        then have "\<forall>t \<in> set (ping_times acts'). now \<le> t"
          using add_leD1 by blast
        then show ?thesis using True Cons p ok rec "1.prems"
          by (auto simp: keepalive.simps [of now drained])
      qed
    qed
  next
    case False
    show ?thesis
    proof (cases reads)
      case Nil
      then show ?thesis using False "1.prems"
        by (simp add: keepalive.simps [of now drained])
    next
      case (Cons p reads')
      obtain d r where p: "p = (d, r)" by (cases p)
      show ?thesis
      proof (cases r)
        case (ReadError u)
        then show ?thesis using False Cons p "1.prems"
          by (cases u) (auto simp: keepalive.simps [of now drained])
      next
        case ReadOk
        obtain acts' st' fin' where rec: "keepalive (now + d) drained pings reads' = (acts', st', fin')"
          by (cases "keepalive (now + d) drained pings reads'") auto
        have "\<forall>t \<in> set (ping_times acts'). now + d \<le> t"
          using "1.IH"(2) [OF False Cons p [symmetric] ReadOk] rec by simp
        then have "\<forall>t \<in> set (ping_times acts'). now \<le> t"
          using add_leD1 by blast
        then show ?thesis using False Cons p ReadOk rec "1.prems"
          by (auto simp: keepalive.simps [of now drained])
      qed
    qed
  qed
qed

lemma first_read_ping_times:
  "\<forall>t \<in> set (ping_times (fst (keepalive 0 0 pings ((d, r) # reads)))). d \<le> t"
proof (cases r)
  case (ReadError u)
  then show ?thesis by (cases u) (simp_all add: keepalive.simps [of 0 0] tick_pending_def)
next
  case ReadOk
  obtain acts st fin where rec: "keepalive d 0 pings reads = (acts, st, fin)"
    by (cases "keepalive d 0 pings reads") auto
  have "\<forall>t \<in> set (ping_times acts). d \<le> t"
    using rec by (rule ping_times_not_before)
  then show ?thesis using ReadOk rec
    by (simp add: keepalive.simps [of 0 0] tick_pending_def)
qed

text \<open>
  With reads that return every 10 seconds the loop finds each tick within the period:
  the schedule can be kept.
\<close>

lemma short_reads_keep_schedule:
  "fst (keepalive 0 0 [(0, WriteOk), (0, WriteOk), (0, WriteOk)] chatty)
     = [ReadMessage 0 10 ReadOk, ReadMessage 10 20 ReadOk, ReadMessage 20 30 ReadOk,
        WriteControl 30 WriteOk, ReadMessage 30 40 ReadOk, ReadMessage 40 50 ReadOk,
        ReadMessage 50 60 ReadOk, WriteControl 60 WriteOk, ReadMessage 60 70 ReadOk,
        ReadMessage 70 80 ReadOk, ReadMessage 80 90 ReadOk, WriteControl 90 WriteOk]
   \<and> on_schedule (fst (keepalive 0 0 [(0, WriteOk), (0, WriteOk), (0, WriteOk)] chatty)) 90"
  by (auto simp: chatty_def keepalive.simps tick_pending_def on_schedule_def list_all_iff)

text \<open>
  C8. The claim asks that a read that blocks cannot hold the heartbeat back. In the loop
  of the handler the read is made in the \<open>default\<close> branch of the \<open>select\<close>, so
  nothing is received from the ticker while \<open>ReadMessage\<close> has not returned: when the
  first read takes 60 seconds or more, no ping is written before it returns, and the
  period from second 30 to second 60 passes without a heartbeat.
\<close>

theorem blocked_read_starves_heartbeat:
  assumes "60 \<le> d"
  shows "(\<forall>t \<in> set (ping_times (fst (keepalive 0 0 pings ((d, r) # reads)))). d \<le> t)
    \<and> \<not> on_schedule (fst (keepalive 0 0 pings ((d, r) # reads))) d"
proof
  show late: "\<forall>t \<in> set (ping_times (fst (keepalive 0 0 pings ((d, r) # reads)))). d \<le> t"
    by (rule first_read_ping_times)
  have "2 \<le> d div 30" using assms by presburger
  then have k: "1 \<in> set [1 ..< d div 30]" by simp
  have "\<not> list_ex (\<lambda>t. 30 * 1 \<le> t \<and> t < 30 * (1 + 1))
           (ping_times (fst (keepalive 0 0 pings ((d, r) # reads))))"
    using late assms by (auto simp: list_ex_iff)
  then show "\<not> on_schedule (fst (keepalive 0 0 pings ((d, r) # reads))) d"
    using k unfolding on_schedule_def list_all_iff by blast
qed

theorem blocked_read_starves_heartbeat_witness:
  "(60::nat) \<le> 100
   \<and> keepalive 0 0 [(0, WriteOk)] [(100, ReadOk)]
       = ([ReadMessage 0 100 ReadOk, WriteControl 100 WriteOk], Running, 100)
   \<and> ping_times [ReadMessage 0 100 ReadOk, WriteControl 100 WriteOk] = [100]
   \<and> \<not> on_schedule (fst (keepalive 0 0 [(0, WriteOk)] [(100, ReadOk)])) 100"
proof -
  have h: "(60::nat) \<le> 100" by simp
  have run: "keepalive 0 0 [(0, WriteOk)] [(100, ReadOk)]
       = ([ReadMessage 0 100 ReadOk, WriteControl 100 WriteOk], Running, 100)"
    by (simp add: keepalive.simps tick_pending_def)
  show ?thesis
    using blocked_read_starves_heartbeat [OF h, of "[(0, WriteOk)]" ReadOk "[]"] h run by simp
qed

end
